theory Spec2Isabelle
  imports Main
begin

section \<open>Observable Store\<close>

text \<open>
  The navigation module \<^verbatim>\<open>ui/src/view.ts\<close> imports \<^verbatim>\<open>Readable\<close> from
  \<^verbatim>\<open>svelte/store\<close> and everything else from \<^verbatim>\<open>./history\<close>. Neither file is among
  the sources, so both layers are written down here from the design document
  (sections 4.1 and 4.2), and \<^verbatim>\<open>view.ts\<close> is then translated on top of them.

\<close>

text \<open>
  Modelled from the spec: the state of the missing store, ``a generic single-value
  reactive container'' with ``an explicit, ordered list of callbacks''. A callback is an
  opaque observer of type \<open>'c\<close>: it receives a value and does not call back into the
  store. Every invocation is recorded, oldest first, in the field \<open>calls\<close> as the
  triple (registration handle, callback, value received). Each call of \<open>subscribe\<close>
  makes a registration of its own, named by a fresh handle.
\<close>

type_synonym handle = nat

record ('a, 'c) store =
  stored :: 'a
  subscribers :: "(handle \<times> 'c) list"
  next_handle :: handle
  calls :: "(handle \<times> 'c \<times> 'a) list"

text \<open>
  Modelled from the spec: the store of \<^verbatim>\<open>svelte/store\<close> is missing from the sources.
  \<^verbatim>\<open>create(initial: T) -> Store<T>\<close>.
\<close>

definition store_create :: "'a \<Rightarrow> ('a, 'c) store" where
  "store_create initial =
     \<lparr>stored = initial, subscribers = [], next_handle = 0, calls = []\<rparr>"

text \<open>
  Modelled from the spec: the dispatch loop of the missing store, ``an explicit, ordered
  list of callbacks with synchronous dispatch'': one call per registered subscriber, in
  registration order.
\<close>

fun notify :: "'a \<Rightarrow> (handle \<times> 'c) list \<Rightarrow> (handle \<times> 'c \<times> 'a) list \<Rightarrow> (handle \<times> 'c \<times> 'a) list" where
  "notify v [] log = log"
| "notify v ((h, c) # rest) log = notify v rest (log @ [(h, c, v)])"

text \<open>
  Modelled from the spec: \<^verbatim>\<open>subscribe\<close> of the missing store. ``Registers callback;
  invokes it once, synchronously, with the current value, before returning''. The
  result is the deregistration handle and the store after the call.
\<close>

definition subscribe :: "'c \<Rightarrow> ('a, 'c) store \<Rightarrow> handle \<times> ('a, 'c) store" where
  "subscribe callback s =
     (next_handle s,
      s\<lparr>subscribers := subscribers s @ [(next_handle s, callback)],
        next_handle := Suc (next_handle s),
        calls := calls s @ [(next_handle s, callback, stored s)]\<rparr>)"

text \<open>
  Modelled from the spec: invoking the handle returned by \<^verbatim>\<open>subscribe\<close> of the missing
  store. ``Deregisters the callback when invoked; calling it more than once is a
  no-op.''
\<close>

definition unsubscribe :: "handle \<Rightarrow> ('a, 'c) store \<Rightarrow> ('a, 'c) store" where
  "unsubscribe h s = s\<lparr>subscribers := filter (\<lambda>(h', c). h' \<noteq> h) (subscribers s)\<rparr>"

text \<open>
  Modelled from the spec: \<^verbatim>\<open>set\<close> and \<^verbatim>\<open>update\<close> of the missing store. ``Replaces
  the stored value and synchronously notifies all currently-registered subscribers, in
  registration order, with the new value.''
\<close>

definition store_set :: "'a \<Rightarrow> ('a, 'c) store \<Rightarrow> ('a, 'c) store" where
  "store_set v s = s\<lparr>stored := v, calls := notify v (subscribers s) (calls s)\<rparr>"

definition store_update :: "('a \<Rightarrow> 'a) \<Rightarrow> ('a, 'c) store \<Rightarrow> ('a, 'c) store" where
  "store_update f s = store_set (f (stored s)) s"

section \<open>History Stack\<close>

text \<open>
  Modelled from the spec: the state of the missing \<^verbatim>\<open>history.ts\<close>, ``an ordered sequence
  of values'' next to the store that backs the readable \<^verbatim>\<open>current\<close>. The sequence is
  kept bottom first: the root is the head of the list and the top is its last element.
\<close>

record ('a, 'c) history =
  stack :: "'a list"
  current :: "('a, 'c) store"

text \<open>
  Modelled from the spec: the design document leaves \<^verbatim>\<open>pop\<close> of the missing
  \<^verbatim>\<open>history.ts\<close> on a one-element sequence open and names the two policies an
  implementation may pick: a no-op, or an explicit ``cannot navigate back from root''
  signal. The policy is a parameter of \<open>pop\<close>, and \<open>pop\<close> returns the signal it raised
  (if any) next to the state it leaves behind.
\<close>

datatype root_policy = NoOp | BackAtRootSignal

datatype signal = CannotNavigateBackFromRoot

text \<open>
  Modelled from the spec: \<^verbatim>\<open>create\<close> of the missing \<^verbatim>\<open>history.ts\<close>. ``Seeds the stack
  with [initial]; the Observable Store backing current starts holding initial.''
\<close>

definition history_create :: "'a \<Rightarrow> ('a, 'c) history" where
  "history_create initial = \<lparr>stack = [initial], current = store_create initial\<rparr>"

text \<open>
  Modelled from the spec: \<^verbatim>\<open>push\<close> of the missing \<^verbatim>\<open>history.ts\<close>. ``Appends item to
  the end of the sequence (new top) and notifies via the store.''
\<close>

definition push :: "'a \<Rightarrow> ('a, 'c) history \<Rightarrow> ('a, 'c) history" where
  "push item h = h\<lparr>stack := stack h @ [item], current := store_set item (current h)\<rparr>"

text \<open>
  Modelled from the spec: \<^verbatim>\<open>pop\<close> of the missing \<^verbatim>\<open>history.ts\<close>. ``Removes the top
  element if the sequence length is greater than 1; notifies with the new top (the
  previous element).'' On a one-element sequence the chosen root policy applies; under
  either policy the sequence is left as it is.
\<close>

definition pop :: "root_policy \<Rightarrow> ('a, 'c) history \<Rightarrow> signal option \<times> ('a, 'c) history" where
  "pop policy h =
     (if 1 < length (stack h) then
        (let rest = butlast (stack h)
         in (None, h\<lparr>stack := rest, current := store_set (last rest) (current h)\<rparr>))
      else (case policy of
              NoOp \<Rightarrow> (None, h)
            | BackAtRootSignal \<Rightarrow> (Some CannotNavigateBackFromRoot, h)))"

text \<open>The top of a sequence, when it has one.\<close>

definition top :: "'a list \<Rightarrow> 'a option" where
  "top xs = (case rev xs of [] \<Rightarrow> None | t # _ \<Rightarrow> Some t)"

text \<open>
  A caller of a history stack pushes, pops, subscribes to \<^verbatim>\<open>current\<close> and invokes
  handles, in any order. A signal raised by \<open>pop\<close> leaves the state to the caller as
  it was.
\<close>

datatype ('a, 'c) hist_call = Push 'a | Pop | Subscribe 'c | Unsubscribe handle

fun hist_step :: "root_policy \<Rightarrow> ('a, 'c) history \<Rightarrow> ('a, 'c) hist_call \<Rightarrow> ('a, 'c) history" where
  "hist_step policy h (Push item) = push item h"
| "hist_step policy h Pop = snd (pop policy h)"
| "hist_step policy h (Subscribe callback) = h\<lparr>current := snd (subscribe callback (current h))\<rparr>"
| "hist_step policy h (Unsubscribe k) = h\<lparr>current := unsubscribe k (current h)\<rparr>"

definition hist_run :: "root_policy \<Rightarrow> ('a, 'c) hist_call list \<Rightarrow> ('a, 'c) history \<Rightarrow> ('a, 'c) history" where
  "hist_run policy cs h = foldl (hist_step policy) h cs"

fun pushed :: "('a, 'c) hist_call list \<Rightarrow> 'a list" where
  "pushed [] = []"
| "pushed (Push item # cs) = item # pushed cs"
| "pushed (_ # cs) = pushed cs"

section \<open>Navigation (ui/src/view.ts)\<close>

text \<open>
  \<^verbatim>\<open>export type Props = Record<string, 0 | string>\<close>: a property value is the literal
  zero or a string, and a bag maps names to such values.
\<close>

datatype prop_value = Zero | Str string

type_synonym props = "string \<rightharpoonup> prop_value"

text \<open>
  \<^verbatim>\<open>interface View<K extends string> { component: unknown, key: K, props?: Props }\<close>.
  A key is a string; the closed set \<open>K\<close> of keys a navigation is typed over is a
  parameter of the theorems. The field \<open>component\<close> holds what the lookup
  \<^verbatim>\<open>componentMap[key]\<close> returned: \<open>Some\<close> handle, or \<open>None\<close> for JavaScript's
  \<^verbatim>\<open>undefined\<close>, which is what reading a missing property of an object gives. An absent
  \<^verbatim>\<open>props\<close> is \<open>None\<close>.
\<close>

record 'comp view =
  component :: "'comp option"
  key :: string
  props :: "props option"

text \<open>
  The object \<^verbatim>\<open>create\<close> returns closes over \<^verbatim>\<open>componentMap\<close> and \<^verbatim>\<open>hist\<close>; these two
  are the state of a navigation.
\<close>

record ('comp, 'c) navigation =
  componentMap :: "string \<rightharpoonup> 'comp"
  hist :: "('comp view, 'c) history"

definition create :: "(string \<rightharpoonup> 'comp) \<Rightarrow> string \<Rightarrow> ('comp, 'c) navigation" where
  "create cm initial =
     \<lparr>componentMap = cm,
      hist = history_create \<lparr>component = cm initial, key = initial, props = None\<rparr>\<rparr>"

text \<open>\<^verbatim>\<open>current: hist.current\<close>: the readable of the navigation is the one of its history.\<close>

definition nav_current :: "('comp, 'c) navigation \<Rightarrow> ('comp view, 'c) store" where
  "nav_current nav = current (hist nav)"

text \<open>\<^verbatim>\<open>back: (): void => { hist.pop(); }\<close>; a signal raised by \<open>pop\<close> passes through.\<close>

definition back_nav :: "root_policy \<Rightarrow> ('comp, 'c) navigation \<Rightarrow> signal option \<times> ('comp, 'c) navigation" where
  "back_nav policy nav = (case pop policy (hist nav) of (sig, h) \<Rightarrow> (sig, nav\<lparr>hist := h\<rparr>))"

text \<open>\<^verbatim>\<open>set: (key, props?) => { hist.push({ component: componentMap[key], key, props }); }\<close>\<close>

definition set_nav :: "string \<Rightarrow> props option \<Rightarrow> ('comp, 'c) navigation \<Rightarrow> ('comp, 'c) navigation" where
  "set_nav k p nav =
     nav\<lparr>hist := push \<lparr>component = componentMap nav k, key = k, props = p\<rparr> (hist nav)\<rparr>"

text \<open>The view a subscriber of \<^verbatim>\<open>current\<close> would be handed now.\<close>

definition current_view :: "('comp, 'c) navigation \<Rightarrow> 'comp view" where
  "current_view nav = stored (nav_current nav)"

datatype 'c nav_call = Set string "props option" | Back | NavSubscribe 'c | NavUnsubscribe handle

fun nav_step :: "root_policy \<Rightarrow> ('comp, 'c) navigation \<Rightarrow> 'c nav_call \<Rightarrow> ('comp, 'c) navigation" where
  "nav_step policy nav (Set k p) = set_nav k p nav"
| "nav_step policy nav Back = snd (back_nav policy nav)"
| "nav_step policy nav (NavSubscribe callback) =
     nav\<lparr>hist := (hist nav)\<lparr>current := snd (subscribe callback (nav_current nav))\<rparr>\<rparr>"
| "nav_step policy nav (NavUnsubscribe k) =
     nav\<lparr>hist := (hist nav)\<lparr>current := unsubscribe k (nav_current nav)\<rparr>\<rparr>"

definition nav_run :: "root_policy \<Rightarrow> 'c nav_call list \<Rightarrow> ('comp, 'c) navigation \<Rightarrow> ('comp, 'c) navigation" where
  "nav_run policy cs nav = foldl (nav_step policy) nav cs"

text \<open>The keys a list of calls navigates to.\<close>

fun set_keys :: "'c nav_call list \<Rightarrow> string list" where
  "set_keys [] = []"
| "set_keys (Set k p # cs) = k # set_keys cs"
| "set_keys (_ # cs) = set_keys cs"

text \<open>The property bags a list of calls hands to \<^verbatim>\<open>set\<close>.\<close>

fun set_props :: "'c nav_call list \<Rightarrow> props option list" where
  "set_props [] = []"
| "set_props (Set k p # cs) = p # set_props cs"
| "set_props (_ # cs) = set_props cs"

section \<open>Functions used to state the properties\<close>

text \<open>The views a list of calls hands to \<^verbatim>\<open>hist.push\<close>, given the component map.\<close>

fun set_views :: "(string \<rightharpoonup> 'comp) \<Rightarrow> 'c nav_call list \<Rightarrow> 'comp view list" where
  "set_views cm [] = []"
| "set_views cm (Set k p # cs) = \<lparr>component = cm k, key = k, props = p\<rparr> # set_views cm cs"
| "set_views cm (_ # cs) = set_views cm cs"

text \<open>What one call on a history stack adds to the record of callback invocations.\<close>

fun step_calls :: "root_policy \<Rightarrow> ('a, 'c) history \<Rightarrow> ('a, 'c) hist_call \<Rightarrow> (handle \<times> 'c \<times> 'a) list" where
  "step_calls policy h (Push item) = map (\<lambda>(k, c). (k, c, item)) (subscribers (current h))"
| "step_calls policy h Pop =
     (if 1 < length (stack h)
      then map (\<lambda>(k, c). (k, c, last (butlast (stack h)))) (subscribers (current h)) else [])"
| "step_calls policy h (Subscribe callback) = [(next_handle (current h), callback, stored (current h))]"
| "step_calls policy h (Unsubscribe k) = []"

text \<open>The callbacks a list of calls subscribes, in the order of the calls.\<close>

fun subscribed :: "('a, 'c) hist_call list \<Rightarrow> 'c list" where
  "subscribed [] = []"
| "subscribed (Subscribe callback # cs) = callback # subscribed cs"
| "subscribed (_ # cs) = subscribed cs"


section \<open>The store and the history stack, operation by operation\<close>

lemma notify_append: "notify v subs log = log @ map (\<lambda>(h, c). (h, c, v)) subs"
  by (induction subs arbitrary: log) auto

lemma store_set_fields:
  "stored (store_set v s) = v"
  "subscribers (store_set v s) = subscribers s"
  "next_handle (store_set v s) = next_handle s"
  "calls (store_set v s) = calls s @ map (\<lambda>(h, c). (h, c, v)) (subscribers s)"
  by (simp_all add: store_set_def notify_append)

lemma subscribe_fields:
  "fst (subscribe cb s) = next_handle s"
  "stored (snd (subscribe cb s)) = stored s"
  "subscribers (snd (subscribe cb s)) = subscribers s @ [(next_handle s, cb)]"
  "next_handle (snd (subscribe cb s)) = Suc (next_handle s)"
  "calls (snd (subscribe cb s)) = calls s @ [(next_handle s, cb, stored s)]"
  by (simp_all add: subscribe_def)

lemma unsubscribe_fields:
  "stored (unsubscribe k s) = stored s"
  "subscribers (unsubscribe k s) = filter (\<lambda>(h', c). h' \<noteq> k) (subscribers s)"
  "next_handle (unsubscribe k s) = next_handle s"
  "calls (unsubscribe k s) = calls s"
  by (simp_all add: unsubscribe_def)

lemma push_fields:
  "stack (push item h) = stack h @ [item]"
  "current (push item h) = store_set item (current h)"
  by (simp_all add: push_def)

lemma pop_fields:
  "stack (snd (pop policy h)) = (if 1 < length (stack h) then butlast (stack h) else stack h)"
  "current (snd (pop policy h)) =
     (if 1 < length (stack h) then store_set (last (butlast (stack h))) (current h) else current h)"
  by (simp_all add: pop_def Let_def split: root_policy.splits)

lemma pop_at_root: "\<not> 1 < length (stack h) \<Longrightarrow> snd (pop policy h) = h"
  by (simp add: pop_def split: root_policy.splits)

lemma hist_run_Nil: "hist_run policy [] h = h"
  by (simp add: hist_run_def)


lemma hist_run_snoc: "hist_run policy (cs @ [c]) h = hist_step policy (hist_run policy cs h) c"
  by (simp add: hist_run_def)

lemma hist_run_append: "hist_run policy (cs @ ds) h = hist_run policy ds (hist_run policy cs h)"
  by (simp add: hist_run_def)

lemma hist_step_shape:
  assumes "stack h \<noteq> []" and "stored (current h) = last (stack h)"
  shows "stack (hist_step policy h c) \<noteq> [] \<and>
         stored (current (hist_step policy h c)) = last (stack (hist_step policy h c)) \<and>
         hd (stack (hist_step policy h c)) = hd (stack h)"
proof (cases c)
  case (Push item)
  with assms show ?thesis by (simp add: push_fields store_set_fields)
next
  case Pop
  show ?thesis
  proof (cases "1 < length (stack h)")
    case True
    then have "butlast (stack h) \<noteq> []"
      by (cases "stack h") (auto split: if_splits)
    moreover from this have "hd (butlast (stack h)) = hd (stack h)"
      by (cases "stack h") (auto split: if_splits)
    ultimately show ?thesis using True Pop
      by (simp add: pop_fields store_set_fields)
  next
    case False
    with assms Pop show ?thesis by (simp add: pop_at_root)
  qed
next
  case (Subscribe cb)
  with assms show ?thesis by (simp add: subscribe_fields)
next
  case (Unsubscribe k)
  with assms show ?thesis by (simp add: unsubscribe_fields)
qed

lemma hist_run_shape:
  assumes "stack h \<noteq> []" and "stored (current h) = last (stack h)"
  shows "stack (hist_run policy cs h) \<noteq> [] \<and>
         stored (current (hist_run policy cs h)) = last (stack (hist_run policy cs h)) \<and>
         hd (stack (hist_run policy cs h)) = hd (stack h)"
proof (induction cs rule: rev_induct)
  case Nil
  with assms show ?case by (simp add: hist_run_Nil)
next
  case (snoc c cs)
  then show ?case
    using hist_step_shape [of "hist_run policy cs h" policy c]
    by (simp add: hist_run_snoc)
qed

lemma pushed_append: "pushed (cs @ ds) = pushed cs @ pushed ds"
  by (induction cs rule: pushed.induct) auto

lemma hist_step_items:
  "set (stack (hist_step policy h c)) \<subseteq> set (stack h) \<union> set (pushed [c])"
proof (cases c)
  case Pop
  then show ?thesis
    by (auto simp: pop_fields dest: in_set_butlastD)
qed (auto simp: push_fields)

lemma hist_run_items:
  "set (stack (hist_run policy cs h)) \<subseteq> set (stack h) \<union> set (pushed cs)"
proof (induction cs rule: rev_induct)
  case Nil
  show ?case by (simp add: hist_run_Nil)
next
  case (snoc c cs)
  then show ?case
    using hist_step_items [of policy "hist_run policy cs h" c]
    by (auto simp: hist_run_snoc pushed_append)
qed

lemma history_create_shape:
  "stack (history_create x) = [x]" "stored (current (history_create x)) = x"
  by (simp_all add: history_create_def store_create_def)

lemma hist_step_calls:
  "calls (current (hist_step policy h c)) = calls (current h) @ step_calls policy h c"
  by (cases c) (simp_all add: push_fields pop_fields store_set_fields subscribe_fields unsubscribe_fields)

lemma hist_step_handle_gone:
  assumes "k \<notin> fst ` set (subscribers (current h))" and "k < next_handle (current h)"
  shows "k \<notin> fst ` set (step_calls policy h c) \<and>
         k \<notin> fst ` set (subscribers (current (hist_step policy h c))) \<and>
         k < next_handle (current (hist_step policy h c))"
proof (cases c)
  case (Push item)
  with assms show ?thesis by (force simp: push_fields store_set_fields)
next
  case Pop
  with assms show ?thesis by (force simp: pop_fields store_set_fields)
next
  case (Subscribe cb)
  with assms show ?thesis by (auto simp: subscribe_fields)
next
  case (Unsubscribe k')
  with assms show ?thesis by (auto simp: unsubscribe_fields)
qed

lemma hist_run_handle_gone:
  assumes "k \<notin> fst ` set (subscribers (current h))" and "k < next_handle (current h)"
  shows "\<exists>new. calls (current (hist_run policy cs h)) = calls (current h) @ new \<and>
           k \<notin> fst ` set new \<and>
           k \<notin> fst ` set (subscribers (current (hist_run policy cs h))) \<and>
           k < next_handle (current (hist_run policy cs h))"
proof (induction cs rule: rev_induct)
  case Nil
  with assms show ?case by (simp add: hist_run_Nil)
next
  case (snoc c cs)
  then obtain new where new: "calls (current (hist_run policy cs h)) = calls (current h) @ new"
    "k \<notin> fst ` set new" "k \<notin> fst ` set (subscribers (current (hist_run policy cs h)))"
    "k < next_handle (current (hist_run policy cs h))"
    by blast
  from hist_step_handle_gone [OF new(3,4), of policy c] new(1,2)
  have "calls (current (hist_run policy (cs @ [c]) h)) =
          calls (current h) @ (new @ step_calls policy (hist_run policy cs h) c) \<and>
        k \<notin> fst ` set (new @ step_calls policy (hist_run policy cs h) c) \<and>
        k \<notin> fst ` set (subscribers (current (hist_run policy (cs @ [c]) h))) \<and>
        k < next_handle (current (hist_run policy (cs @ [c]) h))"
    by (simp add: hist_run_snoc hist_step_calls image_Un)
  then show ?case by blast
qed

lemma hist_step_callback_gone:
  assumes "cb \<notin> snd ` set (subscribers (current h))" and "c \<noteq> Subscribe cb"
  shows "cb \<notin> (fst \<circ> snd) ` set (step_calls policy h c) \<and>
         cb \<notin> snd ` set (subscribers (current (hist_step policy h c)))"
proof (cases c)
  case (Push item)
  with assms show ?thesis by (force simp: push_fields store_set_fields)
next
  case Pop
  with assms show ?thesis by (force simp: pop_fields store_set_fields)
next
  case (Subscribe cb')
  with assms show ?thesis by (auto simp: subscribe_fields)
next
  case (Unsubscribe k')
  with assms show ?thesis by (auto simp: unsubscribe_fields)
qed

lemma hist_run_callback_gone:
  assumes "cb \<notin> snd ` set (subscribers (current h))" and "Subscribe cb \<notin> set cs"
  shows "\<exists>new. calls (current (hist_run policy cs h)) = calls (current h) @ new \<and>
           cb \<notin> (fst \<circ> snd) ` set new \<and>
           cb \<notin> snd ` set (subscribers (current (hist_run policy cs h)))"
  using assms(2)
proof (induction cs rule: rev_induct)
  case Nil
  with assms(1) show ?case by (simp add: hist_run_Nil)
next
  case (snoc c cs)
  then obtain new where new: "calls (current (hist_run policy cs h)) = calls (current h) @ new"
    "cb \<notin> (fst \<circ> snd) ` set new" "cb \<notin> snd ` set (subscribers (current (hist_run policy cs h)))"
    by auto
  from snoc.prems have "c \<noteq> Subscribe cb" by auto
  from hist_step_callback_gone [OF new(3) this, of policy] new(1,2)
  have "calls (current (hist_run policy (cs @ [c]) h)) =
          calls (current h) @ (new @ step_calls policy (hist_run policy cs h) c) \<and>
        cb \<notin> (fst \<circ> snd) ` set (new @ step_calls policy (hist_run policy cs h) c) \<and>
        cb \<notin> snd ` set (subscribers (current (hist_run policy (cs @ [c]) h)))"
    by (simp add: hist_run_snoc hist_step_calls image_Un)
  then show ?case by blast
qed

lemma hist_run_next_handle: "next_handle (current h) \<le> next_handle (current (hist_run policy cs h))"
proof (induction cs rule: rev_induct)
  case Nil
  show ?case by (simp add: hist_run_Nil)
next
  case (snoc c cs)
  have "next_handle (current (hist_run policy cs h)) \<le>
        next_handle (current (hist_step policy (hist_run policy cs h) c))"
    by (cases c) (simp_all add: push_fields pop_fields store_set_fields subscribe_fields unsubscribe_fields)
  with snoc show ?case by (simp add: hist_run_snoc)
qed

lemma unsubscribe_twice: "unsubscribe k (unsubscribe k s) = unsubscribe k s"
  by (simp add: unsubscribe_def)

text \<open>The registered subscribers of a reached history stack are the live registrations of its calls.\<close>

lemma subscribed_append: "subscribed (cs @ ds) = subscribed cs @ subscribed ds"
  by (induction cs rule: subscribed.induct) auto







section \<open>The navigation, operation by operation\<close>

lemma nav_run_Nil: "nav_run policy [] nav = nav"
  by (simp add: nav_run_def)

lemma nav_run_snoc: "nav_run policy (cs @ [c]) nav = nav_step policy (nav_run policy cs nav) c"
  by (simp add: nav_run_def)

lemma nav_run_Cons: "nav_run policy (c # cs) nav = nav_run policy cs (nav_step policy nav c)"
  by (simp add: nav_run_def)

lemma set_keys_append: "set_keys (cs @ ds) = set_keys cs @ set_keys ds"
  by (induction cs rule: set_keys.induct) auto

lemma set_props_append: "set_props (cs @ ds) = set_props cs @ set_props ds"
  by (induction cs rule: set_props.induct) auto

lemma create_fields:
  "componentMap (create cm initial) = cm"
  "stack (hist (create cm initial)) = [\<lparr>component = cm initial, key = initial, props = None\<rparr>]"
  "stored (current (hist (create cm initial))) = \<lparr>component = cm initial, key = initial, props = None\<rparr>"
  "subscribers (current (hist (create cm initial))) = []"
  "calls (current (hist (create cm initial))) = []"
  by (simp_all add: create_def history_create_def store_create_def)

lemma set_nav_fields:
  "componentMap (set_nav k p nav) = componentMap nav"
  "hist (set_nav k p nav) = push \<lparr>component = componentMap nav k, key = k, props = p\<rparr> (hist nav)"
  by (simp_all add: set_nav_def)

lemma back_nav_fields:
  "componentMap (snd (back_nav policy nav)) = componentMap nav"
  "hist (snd (back_nav policy nav)) = snd (pop policy (hist nav))"
  "fst (back_nav policy nav) = fst (pop policy (hist nav))"
  by (simp_all add: back_nav_def split: prod.splits)

lemma nav_step_hist:
  "hist (nav_step policy nav c) =
     hist_step policy (hist nav)
       (case c of
          Set k p \<Rightarrow> Push \<lparr>component = componentMap nav k, key = k, props = p\<rparr>
        | Back \<Rightarrow> Pop
        | NavSubscribe cb \<Rightarrow> Subscribe cb
        | NavUnsubscribe h \<Rightarrow> Unsubscribe h)"
  by (cases c) (simp_all add: set_nav_fields back_nav_fields nav_current_def)

lemma nav_step_componentMap: "componentMap (nav_step policy nav c) = componentMap nav"
  by (cases c) (simp_all add: set_nav_fields back_nav_fields)

lemma nav_run_componentMap: "componentMap (nav_run policy cs nav) = componentMap nav"
  by (induction cs rule: rev_induct) (simp_all add: nav_run_Nil nav_run_snoc nav_step_componentMap)

lemma nav_step_shape:
  assumes "stack (hist nav) \<noteq> []" and "stored (current (hist nav)) = last (stack (hist nav))"
  shows "stack (hist (nav_step policy nav c)) \<noteq> [] \<and>
         stored (current (hist (nav_step policy nav c))) = last (stack (hist (nav_step policy nav c)))"
  using hist_step_shape [OF assms] by (simp add: nav_step_hist)

lemma nav_run_shape:
  assumes "stack (hist nav) \<noteq> []" and "stored (current (hist nav)) = last (stack (hist nav))"
  shows "stack (hist (nav_run policy cs nav)) \<noteq> [] \<and>
         stored (current (hist (nav_run policy cs nav))) = last (stack (hist (nav_run policy cs nav)))"
proof (induction cs rule: rev_induct)
  case Nil
  with assms show ?case by (simp add: nav_run_Nil)
next
  case (snoc c cs)
  then show ?case
    using nav_step_shape [of "nav_run policy cs nav" policy c]
    by (simp add: nav_run_snoc)
qed

lemma nav_reachable_shape:
  "stack (hist (nav_run policy cs (create cm initial))) \<noteq> [] \<and>
   current_view (nav_run policy cs (create cm initial)) =
     last (stack (hist (nav_run policy cs (create cm initial))))"
  using nav_run_shape [of "create cm initial" policy cs]
  by (simp add: create_fields current_view_def nav_current_def)

lemma nav_step_views:
  "set (stack (hist (nav_step policy nav c))) \<subseteq>
     set (stack (hist nav)) \<union>
     (case c of Set k p \<Rightarrow> {\<lparr>component = componentMap nav k, key = k, props = p\<rparr>} | _ \<Rightarrow> {})"
proof (cases c)
  case Back
  then show ?thesis
    by (auto simp: back_nav_fields pop_fields dest: in_set_butlastD)
qed (auto simp: set_nav_fields push_fields nav_current_def)

lemma set_views_append: "set_views cm (cs @ ds) = set_views cm cs @ set_views cm ds"
  by (induction cm cs rule: set_views.induct) auto

lemma nav_run_views:
  "set (stack (hist (nav_run policy cs (create cm initial)))) \<subseteq>
     set (\<lparr>component = cm initial, key = initial, props = None\<rparr> # set_views cm cs)"
proof (induction cs rule: rev_induct)
  case Nil
  show ?case by (simp add: nav_run_Nil create_fields)
next
  case (snoc c cs)
  have cm: "componentMap (nav_run policy cs (create cm initial)) = cm"
    by (simp add: nav_run_componentMap create_fields)
  show ?case
    using snoc nav_step_views [of policy "nav_run policy cs (create cm initial)" c] cm
    by (cases c) (auto simp: nav_run_snoc set_views_append)
qed

lemma set_views_key: "v \<in> set (set_views cm cs) \<Longrightarrow> key v \<in> set (set_keys cs) \<and> component v = cm (key v) \<and> props v \<in> set (set_props cs)"
  by (induction cm cs rule: set_views.induct) auto

lemma nav_reachable_component:
  "component (current_view (nav_run policy cs (create cm initial))) =
     cm (key (current_view (nav_run policy cs (create cm initial))))"
proof -
  let ?nav = "nav_run policy cs (create cm initial)"
  have "current_view ?nav \<in> set (stack (hist ?nav))"
    using nav_reachable_shape [of policy cs cm initial] by simp
  with nav_run_views [of policy cs cm initial]
  have "current_view ?nav = \<lparr>component = cm initial, key = initial, props = None\<rparr> \<or>
        current_view ?nav \<in> set (set_views cm cs)"
    by auto
  then show ?thesis
    by (auto dest: set_views_key)
qed

lemma nav_run_found:
  "v \<in> set (stack (hist (nav_run policy cs (create cm initial)))) \<Longrightarrow>
   (v = \<lparr>component = cm initial, key = initial, props = None\<rparr> \<or>
    (key v \<in> set (set_keys cs) \<and> props v \<in> set (set_props cs))) \<and> component v = cm (key v)"
  using nav_run_views [of policy cs cm initial] by (auto dest: set_views_key)

lemma nav_run_no_set:
  "set_keys cs = [] \<Longrightarrow>
   stack (hist (nav_run policy cs (create cm initial))) =
     [\<lparr>component = cm initial, key = initial, props = None\<rparr>]"
proof (induction cs rule: rev_induct)
  case Nil
  show ?case by (simp add: nav_run_Nil create_fields)
next
  case (snoc c cs)
  then show ?case
    by (cases c)
      (simp_all add: nav_run_snoc set_keys_append back_nav_fields pop_fields nav_current_def)
qed

lemma back_nav_at_root: "\<not> 1 < length (stack (hist nav)) \<Longrightarrow> snd (back_nav policy nav) = nav"
  by (simp add: back_nav_def pop_def split: root_policy.splits)

lemma nav_run_backs: "nav_run policy (replicate n Back) (create cm initial) = create cm initial"
proof (induction n)
  case 0
  show ?case by (simp add: nav_run_Nil)
next
  case (Suc n)
  have "replicate (Suc n) Back = replicate n Back @ [Back :: 'b nav_call]"
    by (simp add: replicate_append_same)
  with Suc show ?case
    by (simp only: nav_run_snoc nav_step.simps) (simp add: back_nav_at_root create_fields)
qed

text \<open>Unfolding these evaluates a run on concrete calls.\<close>

lemmas run_defs = nav_run_def hist_run_def set_nav_def back_nav_def pop_def push_def create_def
  history_create_def store_create_def store_set_def store_update_def subscribe_def unsubscribe_def
  current_view_def nav_current_def top_def Let_def

section \<open>The claims\<close>

subsection \<open>History stack\<close>

text \<open>
  C1. For every initial value \<open>x\<close> and every finite list of calls (pushes and pops, with
  subscriptions and deregistrations in between) on \<^verbatim>\<open>create(x)\<close>, under either root
  policy: the sequence has at least one element, \<^verbatim>\<open>current\<close> holds a value and that value
  is the top of the sequence, and it is the initial value or one of the values pushed.
  The bottom of the sequence stays the initial value.
\<close>

theorem nonempty_current_is_top:
  "1 \<le> length (stack (hist_run policy cs (history_create x))) \<and>
   top (stack (hist_run policy cs (history_create x))) =
     Some (stored (current (hist_run policy cs (history_create x)))) \<and>
   stored (current (hist_run policy cs (history_create x))) \<in> set (x # pushed cs) \<and>
   hd (stack (hist_run policy cs (history_create x))) = x"
proof -
  let ?h = "hist_run policy cs (history_create x) :: ('a, 'b) history"
  have shape: "stack ?h \<noteq> [] \<and> stored (current ?h) = last (stack ?h) \<and> hd (stack ?h) = hd (stack (history_create x :: ('a, 'b) history))"
    by (rule hist_run_shape) (simp_all add: history_create_shape)
  then have len: "1 \<le> length (stack ?h)"
    by (cases "stack ?h") simp_all
  have tp: "top (stack ?h) = Some (stored (current ?h))"
    using shape by (cases "stack ?h" rule: rev_cases) (simp_all add: top_def)
  have "last (stack ?h) \<in> set (stack ?h)"
    using shape by simp
  moreover have "set (stack ?h) \<subseteq> set (x # pushed cs)"
    using hist_run_items [of policy cs "history_create x"]
    by (simp add: history_create_shape)
  ultimately have "last (stack ?h) \<in> set (x # pushed cs)"
    by (rule subsetD [rotated])
  then have mem: "stored (current ?h) \<in> set (x # pushed cs)"
    using shape by simp
  show ?thesis using shape len tp mem by (simp add: history_create_shape)
qed

text \<open>
  C4. Starting from \<^verbatim>\<open>create(x)\<close>, the calls \<^verbatim>\<open>push(a); push(b); pop(); pop()\<close> leave
  \<^verbatim>\<open>current\<close> at \<open>a\<close> right after the first \<^verbatim>\<open>pop()\<close> and at \<open>x\<close> at the end, for all
  items \<open>a\<close>, \<open>b\<close>, \<open>x\<close> and under either root policy.
\<close>

theorem lifo_round_trip:
  "stored (current (snd (pop policy (push b (push a (history_create x :: ('a, 'c) history)))))) = a \<and>
   stored (current (snd (pop policy (snd (pop policy
      (push b (push a (history_create x :: ('a, 'c) history)))))))) = x"
  by (simp add: pop_fields push_fields store_set_fields history_create_shape)

text \<open>
  C7. \<^verbatim>\<open>pop()\<close> removes the top element only when the sequence is longer than one
  element, and then the store holds, and every subscriber is called with, the new top
  (the previous element); on a one-element sequence \<^verbatim>\<open>pop()\<close> leaves the whole state as
  it is. Consequently \<^verbatim>\<open>back()\<close> on a navigation that has seen no \<^verbatim>\<open>set\<close> changes
  nothing (no entry removed, no subscriber called), however often it is called: the
  sequence keeps its single root entry, and every such call gives the same outcome.
\<close>

theorem pop_guard_and_root_back:
  "(1 < length (stack h) \<longrightarrow>
      fst (pop policy h) = None \<and>
      stack (snd (pop policy h)) = butlast (stack h) \<and>
      stored (current (snd (pop policy h))) = last (butlast (stack h)) \<and>
      calls (current (snd (pop policy h))) =
        calls (current h) @ map (\<lambda>(k, c). (k, c, last (butlast (stack h)))) (subscribers (current h))) \<and>
   (\<not> 1 < length (stack h) \<longrightarrow> snd (pop policy h) = h) \<and>
   (set_keys cs = [] \<longrightarrow>
      snd (back_nav policy (nav_run policy cs (create cm initial))) = nav_run policy cs (create cm initial) \<and>
      length (stack (hist (nav_run policy cs (create cm initial)))) = 1) \<and>
   nav_run policy (replicate n Back) (create cm initial :: ('comp, 'c) navigation) = create cm initial \<and>
   1 \<le> length (stack (hist (nav_run policy (replicate n Back) (create cm initial :: ('comp, 'c) navigation)))) \<and>
   fst (back_nav policy (nav_run policy (replicate n Back) (create cm initial :: ('comp, 'c) navigation))) =
     fst (back_nav policy (create cm initial :: ('comp, 'c) navigation))"
proof -
  have a: "1 < length (stack h) \<longrightarrow>
      fst (pop policy h) = None \<and>
      stack (snd (pop policy h)) = butlast (stack h) \<and>
      stored (current (snd (pop policy h))) = last (butlast (stack h)) \<and>
      calls (current (snd (pop policy h))) =
        calls (current h) @ map (\<lambda>(k, c). (k, c, last (butlast (stack h)))) (subscribers (current h))"
    by (simp add: pop_fields store_set_fields) (simp add: pop_def Let_def)
  have b: "\<not> 1 < length (stack h) \<longrightarrow> snd (pop policy h) = h"
    by (simp add: pop_at_root)
  have c: "set_keys cs = [] \<longrightarrow>
      snd (back_nav policy (nav_run policy cs (create cm initial))) = nav_run policy cs (create cm initial) \<and>
      length (stack (hist (nav_run policy cs (create cm initial)))) = 1"
    by (simp add: nav_run_no_set back_nav_at_root)
  have d: "nav_run policy (replicate n Back) (create cm initial :: ('comp, 'c) navigation) = create cm initial"
    by (rule nav_run_backs)
  have e: "1 \<le> length (stack (hist (nav_run policy (replicate n Back) (create cm initial :: ('comp, 'c) navigation))))"
    by (simp add: nav_run_backs create_fields)
  have f: "fst (back_nav policy (nav_run policy (replicate n Back) (create cm initial :: ('comp, 'c) navigation))) =
     fst (back_nav policy (create cm initial :: ('comp, 'c) navigation))"
    by (simp add: nav_run_backs)
  from a b c d e f show ?thesis by blast
qed

theorem pop_guard_and_root_back_witness:
  "1 < length (stack (push 20 (hist_step NoOp (history_create (10::nat)) (Subscribe ''render'')))) \<and>
   stack (snd (pop NoOp (push 20 (hist_step NoOp (history_create (10::nat)) (Subscribe ''render''))))) = [10] \<and>
   calls (current (snd (pop NoOp (push 20 (hist_step NoOp (history_create (10::nat)) (Subscribe ''render'')))))) =
     [(0, ''render'', 10), (0, ''render'', 20), (0, ''render'', 10)] \<and>
   \<not> 1 < length (stack (history_create (10::nat) :: (nat, string) history)) \<and>
   snd (pop BackAtRootSignal (history_create (10::nat) :: (nat, string) history)) = history_create 10 \<and>
   set_keys [Back, NavSubscribe ''render'', Back] = [] \<and>
   length (stack (hist (nav_run BackAtRootSignal [Back, NavSubscribe ''render'', Back]
      (create [''A'' \<mapsto> (1::nat)] ''A'' :: (nat, string) navigation)))) = 1"
proof -
  note longer = pop_guard_and_root_back
    [of "push 20 (hist_step NoOp (history_create (10::nat)) (Subscribe ''render''))" NoOp
        "[] :: string nav_call list" "[''A'' \<mapsto> (1::nat)]" "''A''" 0]
  note root = pop_guard_and_root_back
    [of "history_create (10::nat) :: (nat, string) history" BackAtRootSignal
        "[Back, NavSubscribe ''render'', Back]" "[''A'' \<mapsto> (1::nat)]" "''A''" 0]
  have len: "1 < length (stack (push 20 (hist_step NoOp (history_create (10::nat)) (Subscribe ''render''))))"
    by (simp add: push_fields history_create_shape)
  have at_root: "\<not> 1 < length (stack (history_create (10::nat) :: (nat, string) history))"
    by (simp add: history_create_shape)
  have no_set: "set_keys [Back, NavSubscribe ''render'', Back] = []"
    by simp
  from longer len have popped:
    "stack (snd (pop NoOp (push 20 (hist_step NoOp (history_create (10::nat)) (Subscribe ''render''))))) =
       butlast (stack (push 20 (hist_step NoOp (history_create (10::nat)) (Subscribe ''render''))))"
    "calls (current (snd (pop NoOp (push 20 (hist_step NoOp (history_create (10::nat)) (Subscribe ''render'')))))) =
       calls (current (push 20 (hist_step NoOp (history_create (10::nat)) (Subscribe ''render'')))) @
       map (\<lambda>(k, c). (k, c, last (butlast (stack (push 20 (hist_step NoOp (history_create (10::nat)) (Subscribe ''render'')))))))
         (subscribers (current (push 20 (hist_step NoOp (history_create (10::nat)) (Subscribe ''render'')))))"
    by blast+
  from root at_root have kept:
    "snd (pop BackAtRootSignal (history_create (10::nat) :: (nat, string) history)) = history_create 10"
    by blast
  from root no_set have single:
    "length (stack (hist (nav_run BackAtRootSignal [Back, NavSubscribe ''render'', Back]
      (create [''A'' \<mapsto> (1::nat)] ''A'' :: (nat, string) navigation)))) = 1"
    by blast
  from popped have
    "stack (snd (pop NoOp (push 20 (hist_step NoOp (history_create (10::nat)) (Subscribe ''render''))))) = [10]"
    "calls (current (snd (pop NoOp (push 20 (hist_step NoOp (history_create (10::nat)) (Subscribe ''render'')))))) =
       [(0, ''render'', 10), (0, ''render'', 20), (0, ''render'', 10)]"
    by (simp_all add: push_fields store_set_fields subscribe_fields history_create_def store_create_def)
  with len at_root kept no_set single show ?thesis by blast
qed

subsection \<open>Observable store\<close>




text \<open>
  C6. After the handle returned by \<^verbatim>\<open>subscribe(callback)\<close> has been invoked, no later
  call on the history stack (push, pop, further subscriptions and deregistrations) and
  no later \<^verbatim>\<open>set\<close> on the store calls that registration again; if the callback has no
  other registration and is not subscribed anew, the callback itself is never called
  again. Invoking the handle a second time changes nothing.
\<close>

theorem unsubscribe_stops_calls:
  "(let k = fst (subscribe callback (current h0));
        h1 = hist_step policy h0 (Subscribe callback);
        h2 = hist_run policy cs1 h1;
        h3 = hist_step policy h2 (Unsubscribe k);
        h4 = hist_run policy cs2 h3;
        later = drop (length (calls (current h3))) (calls (current h4))
    in calls (current h4) = calls (current h3) @ later \<and>
       k \<notin> fst ` set later \<and>
       (callback \<notin> snd ` set (subscribers (current h3)) \<and> Subscribe callback \<notin> set cs2 \<longrightarrow>
          callback \<notin> (fst \<circ> snd) ` set later) \<and>
       k \<notin> fst ` set (drop (length (calls (current h3))) (calls (store_set v (current h3)))) \<and>
       hist_step policy h3 (Unsubscribe k) = h3) \<and>
   unsubscribe k' (unsubscribe k' s) = unsubscribe k' s"
proof -
  define k where "k = fst (subscribe callback (current h0))"
  define h1 where "h1 = hist_step policy h0 (Subscribe callback)"
  define h2 where "h2 = hist_run policy cs1 h1"
  define h3 where "h3 = hist_step policy h2 (Unsubscribe k)"
  define h4 where "h4 = hist_run policy cs2 h3"
  define later where "later = drop (length (calls (current h3))) (calls (current h4))"
  have "k < next_handle (current h1)"
    by (simp add: k_def h1_def subscribe_fields)
  also have "\<dots> \<le> next_handle (current h2)"
    unfolding h2_def by (rule hist_run_next_handle)
  finally have fresh: "k < next_handle (current h3)"
    by (simp add: h3_def unsubscribe_fields)
  have gone: "k \<notin> fst ` set (subscribers (current h3))"
    by (auto simp: h3_def unsubscribe_fields)
  from hist_run_handle_gone [OF gone fresh, of policy cs2]
  obtain new where new: "calls (current h4) = calls (current h3) @ new" "k \<notin> fst ` set new"
    unfolding h4_def by blast
  then have later_new: "later = new"
    by (simp add: later_def)
  have a: "calls (current h4) = calls (current h3) @ later" "k \<notin> fst ` set later"
    using new later_new by simp_all
  have b: "callback \<notin> (fst \<circ> snd) ` set later"
    if "callback \<notin> snd ` set (subscribers (current h3))" "Subscribe callback \<notin> set cs2"
  proof -
    from hist_run_callback_gone [OF that, of policy]
    obtain new' where "calls (current h4) = calls (current h3) @ new'"
      "callback \<notin> (fst \<circ> snd) ` set new'"
      unfolding h4_def by blast
    then show ?thesis by (simp add: later_def)
  qed
  have c: "hist_step policy h3 (Unsubscribe k) = h3"
    by (simp add: h3_def unsubscribe_twice)
  have d: "k \<notin> fst ` set (drop (length (calls (current h3))) (calls (store_set v (current h3))))"
    using gone by (force simp: store_set_fields)
  from a b c d show ?thesis
    unfolding Let_def k_def [symmetric] h1_def [symmetric] h2_def [symmetric] h3_def [symmetric]
      h4_def [symmetric] later_def [symmetric]
    by (simp add: unsubscribe_twice)
qed

theorem unsubscribe_stops_calls_witness:
  "''render'' \<notin> snd ` set (subscribers (current
      (hist_run NoOp [Subscribe ''render'', Push 20, Unsubscribe 0] (history_create (10::nat))))) \<and>
   Subscribe ''render'' \<notin> set [Push (30::nat), Pop, Subscribe ''menu'', Push 40] \<and>
   calls (current (hist_run NoOp [Subscribe ''render'', Push 20, Unsubscribe 0] (history_create (10::nat)))) =
     [(0, ''render'', 10), (0, ''render'', 20)] \<and>
   calls (current (hist_run NoOp [Push 30, Pop, Subscribe ''menu'', Push 40]
      (hist_run NoOp [Subscribe ''render'', Push 20, Unsubscribe 0] (history_create (10::nat))))) =
     [(0, ''render'', 10), (0, ''render'', 20), (1, ''menu'', 20), (1, ''menu'', 40)] \<and>
   ''render'' \<notin> (fst \<circ> snd) ` set (drop 2 (calls (current (hist_run NoOp [Push 30, Pop, Subscribe ''menu'', Push 40]
      (hist_run NoOp [Subscribe ''render'', Push 20, Unsubscribe 0] (history_create (10::nat)))))))"
proof -
  have run: "hist_run NoOp [Subscribe ''render'', Push 20, Unsubscribe 0] (history_create (10::nat)) =
      hist_step NoOp (hist_run NoOp [Push 20] (hist_step NoOp (history_create 10) (Subscribe ''render'')))
        (Unsubscribe (fst (subscribe ''render'' (current (history_create (10::nat) :: (nat, string) history)))))"
    by (simp add: hist_run_def subscribe_fields history_create_def store_create_def)
  have log: "calls (current (hist_run NoOp [Subscribe ''render'', Push 20, Unsubscribe 0] (history_create (10::nat)))) =
      [(0, ''render'', 10), (0, ''render'', 20)]"
    by (simp add: run_defs)
  have log': "calls (current (hist_run NoOp [Push 30, Pop, Subscribe ''menu'', Push 40]
      (hist_run NoOp [Subscribe ''render'', Push 20, Unsubscribe 0] (history_create (10::nat))))) =
     [(0, ''render'', 10), (0, ''render'', 20), (1, ''menu'', 20), (1, ''menu'', 40)]"
    by (simp add: run_defs)
  have h1: "''render'' \<notin> snd ` set (subscribers (current
      (hist_run NoOp [Subscribe ''render'', Push 20, Unsubscribe 0] (history_create (10::nat)))))"
    by (simp add: run_defs)
  have h2: "Subscribe ''render'' \<notin> set [Push (30::nat), Pop, Subscribe ''menu'', Push 40]"
    by simp
  from unsubscribe_stops_calls [of "''render''" "history_create (10::nat)" NoOp "[Push 20]"
      "[Push 30, Pop, Subscribe ''menu'', Push 40]" 0 0 "store_create (10::nat)"]
  have "''render'' \<notin> snd ` set (subscribers (current
          (hist_run NoOp [Subscribe ''render'', Push 20, Unsubscribe 0] (history_create (10::nat))))) \<and>
        Subscribe ''render'' \<notin> set [Push (30::nat), Pop, Subscribe ''menu'', Push 40] \<longrightarrow>
        ''render'' \<notin> (fst \<circ> snd) ` set (drop
          (length (calls (current (hist_run NoOp [Subscribe ''render'', Push 20, Unsubscribe 0] (history_create (10::nat))))))
          (calls (current (hist_run NoOp [Push 30, Pop, Subscribe ''menu'', Push 40]
            (hist_run NoOp [Subscribe ''render'', Push 20, Unsubscribe 0] (history_create (10::nat)))))))"
    unfolding Let_def run [symmetric] by blast
  with h1 h2 have "''render'' \<notin> (fst \<circ> snd) ` set (drop
          (length (calls (current (hist_run NoOp [Subscribe ''render'', Push 20, Unsubscribe 0] (history_create (10::nat))))))
          (calls (current (hist_run NoOp [Push 30, Pop, Subscribe ''menu'', Push 40]
            (hist_run NoOp [Subscribe ''render'', Push 20, Unsubscribe 0] (history_create (10::nat)))))))"
    by blast
  moreover have "length (calls (current
      (hist_run NoOp [Subscribe ''render'', Push 20, Unsubscribe 0] (history_create (10::nat))))) = 2"
    by (simp add: log)
  ultimately have "''render'' \<notin> (fst \<circ> snd) ` set (drop 2 (calls (current (hist_run NoOp [Push 30, Pop, Subscribe ''menu'', Push 40]
      (hist_run NoOp [Subscribe ''render'', Push 20, Unsubscribe 0] (history_create (10::nat)))))))"
    by simp
  with h1 h2 log log' show ?thesis by blast
qed

subsection \<open>Navigation\<close>

text \<open>
  C2. For every component map and key \<open>k\<close>, the view \<^verbatim>\<open>set(k, props)\<close> pushes is
  \<^verbatim>\<open>{ component: componentMap[k], key: k, props }\<close>, with the component looked up in the
  map at that moment, and the first view of \<^verbatim>\<open>create(componentMap, initial)\<close> is
  \<^verbatim>\<open>{ component: componentMap[initial], key: initial }\<close> without props. The map never
  changes. Hence, when the initial key and every key handed to \<^verbatim>\<open>set\<close> lie in \<open>K\<close>, every
  view on the stack has its key in \<open>K\<close> and as component exactly the map's entry for
  that key.
\<close>

theorem component_resolved_from_map:
  assumes "initial \<in> K" and "set (set_keys cs) \<subseteq> K"
  shows "hist (create cm initial :: ('comp, 'c) navigation) =
           history_create \<lparr>component = cm initial, key = initial, props = None\<rparr> \<and>
         hist (set_nav k p nav) =
           push \<lparr>component = componentMap nav k, key = k, props = p\<rparr> (hist nav) \<and>
         stack (hist (create cm initial :: ('comp, 'c) navigation)) =
           [\<lparr>component = cm initial, key = initial, props = None\<rparr>] \<and>
         current_view (create cm initial :: ('comp, 'c) navigation) =
           \<lparr>component = cm initial, key = initial, props = None\<rparr> \<and>
         last (stack (hist (set_nav k p nav))) = \<lparr>component = componentMap nav k, key = k, props = p\<rparr> \<and>
         current_view (set_nav k p nav) = \<lparr>component = componentMap nav k, key = k, props = p\<rparr> \<and>
         componentMap (nav_run policy cs (create cm initial)) = cm \<and>
         (\<forall>v \<in> set (stack (hist (nav_run policy cs (create cm initial)))).
            key v \<in> K \<and> component v = cm (key v))"
proof -
  have init: "stack (hist (create cm initial :: ('comp, 'c) navigation)) =
        [\<lparr>component = cm initial, key = initial, props = None\<rparr>] \<and>
      current_view (create cm initial :: ('comp, 'c) navigation) =
        \<lparr>component = cm initial, key = initial, props = None\<rparr>"
    by (simp add: create_fields current_view_def nav_current_def)
  have pushed_view: "last (stack (hist (set_nav k p nav))) = \<lparr>component = componentMap nav k, key = k, props = p\<rparr> \<and>
      current_view (set_nav k p nav) = \<lparr>component = componentMap nav k, key = k, props = p\<rparr>"
    by (simp add: set_nav_fields push_fields store_set_fields current_view_def nav_current_def)
  have cmap: "componentMap (nav_run policy cs (create cm initial)) = cm"
    by (simp add: nav_run_componentMap create_fields)
  have all: "key v \<in> K \<and> component v = cm (key v)"
    if "v \<in> set (stack (hist (nav_run policy cs (create cm initial))))" for v
  proof -
    from that nav_run_views [of policy cs cm initial]
    have "v = \<lparr>component = cm initial, key = initial, props = None\<rparr> \<or> v \<in> set (set_views cm cs)"
      by auto
    then show ?thesis
    proof
      assume "v = \<lparr>component = cm initial, key = initial, props = None\<rparr>"
      with assms(1) show ?thesis by simp
    next
      assume "v \<in> set (set_views cm cs)"
      from set_views_key [OF this] assms(2) show ?thesis by auto
    qed
  qed
  have handed: "hist (create cm initial :: ('comp, 'c) navigation) =
        history_create \<lparr>component = cm initial, key = initial, props = None\<rparr> \<and>
      hist (set_nav k p nav) =
        push \<lparr>component = componentMap nav k, key = k, props = p\<rparr> (hist nav)"
    by (simp add: create_def set_nav_def)
  from handed init pushed_view cmap all show ?thesis by blast
qed

theorem component_resolved_from_map_witness:
  "''A'' \<in> {''A'', ''B''} \<and>
   set (set_keys [Set ''B'' None, Set ''A'' None, Back :: unit nav_call]) \<subseteq> {''A'', ''B''} \<and>
   component (current_view (set_nav ''B'' None
      (create [''A'' \<mapsto> (1::nat), ''B'' \<mapsto> 2] ''A'' :: (nat, unit) navigation))) = Some 2 \<and>
   list_all (\<lambda>v. key v \<in> {''A'', ''B''} \<and> component v = [''A'' \<mapsto> (1::nat), ''B'' \<mapsto> 2] (key v))
     (stack (hist (nav_run NoOp [Set ''B'' None, Set ''A'' None, Back]
        (create [''A'' \<mapsto> (1::nat), ''B'' \<mapsto> 2] ''A'' :: (nat, unit) navigation))))"
proof -
  have a: "''A'' \<in> {''A'', ''B''}" by simp
  have b: "set (set_keys [Set ''B'' None, Set ''A'' None, Back :: unit nav_call]) \<subseteq> {''A'', ''B''}"
    by simp
  note inst = component_resolved_from_map [OF a b, of "[''A'' \<mapsto> (1::nat), ''B'' \<mapsto> 2]" "''B''" None
        "create [''A'' \<mapsto> (1::nat), ''B'' \<mapsto> 2] ''A'' :: (nat, unit) navigation" NoOp]
  from inst have "current_view (set_nav ''B'' None
      (create [''A'' \<mapsto> (1::nat), ''B'' \<mapsto> 2] ''A'' :: (nat, unit) navigation)) =
      \<lparr>component = componentMap (create [''A'' \<mapsto> (1::nat), ''B'' \<mapsto> 2] ''A'' :: (nat, unit) navigation) ''B'',
       key = ''B'', props = None\<rparr>"
    by blast
  then have c: "component (current_view (set_nav ''B'' None
      (create [''A'' \<mapsto> (1::nat), ''B'' \<mapsto> 2] ''A'' :: (nat, unit) navigation))) = Some 2"
    by (simp add: create_fields)
  from inst have "\<forall>v \<in> set (stack (hist (nav_run NoOp [Set ''B'' None, Set ''A'' None, Back]
        (create [''A'' \<mapsto> (1::nat), ''B'' \<mapsto> 2] ''A'' :: (nat, unit) navigation)))).
      key v \<in> {''A'', ''B''} \<and> component v = [''A'' \<mapsto> (1::nat), ''B'' \<mapsto> 2] (key v)"
    by blast
  then have d: "list_all (\<lambda>v. key v \<in> {''A'', ''B''} \<and> component v = [''A'' \<mapsto> (1::nat), ''B'' \<mapsto> 2] (key v))
     (stack (hist (nav_run NoOp [Set ''B'' None, Set ''A'' None, Back]
        (create [''A'' \<mapsto> (1::nat), ''B'' \<mapsto> 2] ''A'' :: (nat, unit) navigation))))"
    unfolding list_all_iff .
  from a b c d show ?thesis by blast
qed

text \<open>
  C3. With \<^verbatim>\<open>componentMap = { A: CompA, B: CompB }\<close> and initial key \<^verbatim>\<open>"A"\<close>: the current
  key is \<^verbatim>\<open>"A"\<close> at first; after \<^verbatim>\<open>set("B", { x: "y" })\<close> the current key is \<^verbatim>\<open>"B"\<close> and
  the current props are \<^verbatim>\<open>{ x: "y" }\<close>; after \<^verbatim>\<open>back()\<close> the current key is \<^verbatim>\<open>"A"\<close> again,
  the props are absent and the current view is the very view from before the \<^verbatim>\<open>set\<close>.
  The last holds on every navigation reached from \<^verbatim>\<open>create\<close>: \<^verbatim>\<open>set\<close> followed by
  \<^verbatim>\<open>back\<close> restores the view that was current.
\<close>

theorem set_back_round_trip:
  "key (current_view (create [''A'' \<mapsto> CompA, ''B'' \<mapsto> CompB] ''A'' :: ('comp, 'c) navigation)) = ''A'' \<and>
   key (current_view (set_nav ''B'' (Some [''x'' \<mapsto> Str ''y''])
          (create [''A'' \<mapsto> CompA, ''B'' \<mapsto> CompB] ''A'' :: ('comp, 'c) navigation))) = ''B'' \<and>
   props (current_view (set_nav ''B'' (Some [''x'' \<mapsto> Str ''y''])
          (create [''A'' \<mapsto> CompA, ''B'' \<mapsto> CompB] ''A'' :: ('comp, 'c) navigation))) =
     Some [''x'' \<mapsto> Str ''y''] \<and>
   key (current_view (snd (back_nav policy (set_nav ''B'' (Some [''x'' \<mapsto> Str ''y''])
          (create [''A'' \<mapsto> CompA, ''B'' \<mapsto> CompB] ''A'' :: ('comp, 'c) navigation))))) = ''A'' \<and>
   props (current_view (snd (back_nav policy (set_nav ''B'' (Some [''x'' \<mapsto> Str ''y''])
          (create [''A'' \<mapsto> CompA, ''B'' \<mapsto> CompB] ''A'' :: ('comp, 'c) navigation))))) = None \<and>
   current_view (snd (back_nav policy (set_nav ''B'' (Some [''x'' \<mapsto> Str ''y''])
          (create [''A'' \<mapsto> CompA, ''B'' \<mapsto> CompB] ''A'' :: ('comp, 'c) navigation)))) =
     current_view (create [''A'' \<mapsto> CompA, ''B'' \<mapsto> CompB] ''A'' :: ('comp, 'c) navigation) \<and>
   current_view (snd (back_nav policy (set_nav k p (nav_run policy cs (create cm initial))))) =
     current_view (nav_run policy cs (create cm initial))"
proof -
  have "current_view (snd (back_nav policy (set_nav k p (nav_run policy cs (create cm initial))))) =
     current_view (nav_run policy cs (create cm initial))"
    using nav_reachable_shape [of policy cs cm initial]
    by (simp add: current_view_def nav_current_def back_nav_fields set_nav_fields pop_fields
        push_fields store_set_fields)
  then show ?thesis
    by (simp add: current_view_def nav_current_def back_nav_fields set_nav_fields pop_fields
        push_fields store_set_fields create_fields)
qed

text \<open>
  C8. When the component map has an entry for every key of \<open>K\<close>, the initial key lies in
  \<open>K\<close> and every key handed to \<^verbatim>\<open>set\<close> lies in \<open>K\<close>, then each lookup
  \<^verbatim>\<open>componentMap[key]\<close> made by \<^verbatim>\<open>create\<close> and by \<^verbatim>\<open>set\<close> finds an entry: the component
  of the initial view, of every pushed view and of every view on the stack is a
  handle of the map, never \<^verbatim>\<open>undefined\<close>.
\<close>

theorem total_map_lookup_defined:
  assumes "K \<subseteq> dom cm" and "initial \<in> K" and "set (set_keys cs) \<subseteq> K"
  shows "(\<exists>c. cm initial = Some c \<and>
            component (current_view (create cm initial :: ('comp, 'c) navigation)) = Some c) \<and>
         (\<forall>k \<in> K. \<exists>c. cm k = Some c \<and>
            component (current_view (set_nav k p (nav_run policy cs (create cm initial)))) = Some c) \<and>
         (\<forall>v \<in> set (stack (hist (nav_run policy cs (create cm initial)))).
            \<exists>c. component v = Some c)"
proof -
  have defined: "\<exists>c. cm k = Some c" if "k \<in> K" for k
    using that assms(1) by auto
  have first: "\<exists>c. cm initial = Some c \<and>
      component (current_view (create cm initial :: ('comp, 'c) navigation)) = Some c"
    using defined [OF assms(2)]
    by (simp add: current_view_def nav_current_def create_fields)
  have pushed_view: "\<exists>c. cm k = Some c \<and>
      component (current_view (set_nav k p (nav_run policy cs (create cm initial)))) = Some c"
    if "k \<in> K" for k
    using defined [OF that]
    by (simp add: current_view_def nav_current_def set_nav_fields push_fields store_set_fields
        nav_run_componentMap create_fields)
  have on_stack: "\<exists>c. component v = Some c"
    if "v \<in> set (stack (hist (nav_run policy cs (create cm initial))))" for v
  proof -
    from nav_run_found [OF that] assms(2,3) have "key v \<in> K" and "component v = cm (key v)"
      by auto
    with defined show ?thesis by simp
  qed
  from first pushed_view on_stack show ?thesis by blast
qed

theorem total_map_lookup_defined_witness:
  "{''A'', ''B''} \<subseteq> dom [''A'' \<mapsto> (1::nat), ''B'' \<mapsto> 2] \<and>
   ''A'' \<in> {''A'', ''B''} \<and>
   set (set_keys [Set ''B'' None, Back, Set ''A'' None :: string nav_call]) \<subseteq> {''A'', ''B''} \<and>
   (\<exists>c. component (current_view (set_nav ''B'' None
      (nav_run NoOp [Set ''B'' None, Back, Set ''A'' None]
        (create [''A'' \<mapsto> (1::nat), ''B'' \<mapsto> 2] ''A'' :: (nat, string) navigation)))) = Some c) \<and>
   list_all (\<lambda>v. \<exists>c. component v = Some c)
     (stack (hist (nav_run NoOp [Set ''B'' None, Back, Set ''A'' None]
        (create [''A'' \<mapsto> (1::nat), ''B'' \<mapsto> 2] ''A'' :: (nat, string) navigation))))"
proof -
  have total: "{''A'', ''B''} \<subseteq> dom [''A'' \<mapsto> (1::nat), ''B'' \<mapsto> 2]" by simp
  have a: "''A'' \<in> {''A'', ''B''}" by simp
  have b: "set (set_keys [Set ''B'' None, Back, Set ''A'' None :: string nav_call]) \<subseteq> {''A'', ''B''}"
    by simp
  note inst = total_map_lookup_defined [OF total a b, of None NoOp]
  from inst have "\<forall>k \<in> {''A'', ''B''}. \<exists>c. [''A'' \<mapsto> (1::nat), ''B'' \<mapsto> 2] k = Some c \<and>
      component (current_view (set_nav k None
        (nav_run NoOp [Set ''B'' None, Back, Set ''A'' None]
          (create [''A'' \<mapsto> (1::nat), ''B'' \<mapsto> 2] ''A'' :: (nat, string) navigation)))) = Some c"
    by blast
  then have c: "\<exists>c. component (current_view (set_nav ''B'' None
      (nav_run NoOp [Set ''B'' None, Back, Set ''A'' None]
        (create [''A'' \<mapsto> (1::nat), ''B'' \<mapsto> 2] ''A'' :: (nat, string) navigation)))) = Some c"
    by blast
  from inst have "\<forall>v \<in> set (stack (hist (nav_run NoOp [Set ''B'' None, Back, Set ''A'' None]
        (create [''A'' \<mapsto> (1::nat), ''B'' \<mapsto> 2] ''A'' :: (nat, string) navigation)))).
      \<exists>c. component v = Some c"
    by blast
  then have d: "list_all (\<lambda>v. \<exists>c. component v = Some c)
     (stack (hist (nav_run NoOp [Set ''B'' None, Back, Set ''A'' None]
        (create [''A'' \<mapsto> (1::nat), ''B'' \<mapsto> 2] ''A'' :: (nat, string) navigation))))"
    unfolding list_all_iff .
  from total a b c d show ?thesis by blast
qed

text \<open>
  C9. A property bag maps names to the literal zero or to a string, and the navigation
  never looks into a bag or changes it: the view \<^verbatim>\<open>set(k, props)\<close> pushes carries exactly
  the bag it was handed, the initial view carries none, and on every navigation
  reached from \<^verbatim>\<open>create\<close> the props of each view on the stack are absent or one of the
  bags handed to \<^verbatim>\<open>set\<close>, every value in them being the zero or a string.
\<close>

theorem props_stored_verbatim:
  "props (current_view (set_nav k p nav)) = p \<and>
   props (current_view (create cm initial :: ('comp, 'c) navigation)) = None \<and>
   (\<forall>v \<in> set (stack (hist (nav_run policy cs (create cm initial :: ('comp, 'c) navigation)))).
      props v \<in> set (None # set_props cs) \<and>
      (\<forall>bag. props v = Some bag \<longrightarrow> ran bag \<subseteq> insert Zero (range Str)))"
proof -
  have dom_vals: "ran bag \<subseteq> insert Zero (range Str)" for bag :: props
  proof
    fix x assume "x \<in> ran bag"
    show "x \<in> insert Zero (range Str)" by (cases x) simp_all
  qed
  have "props v \<in> set (None # set_props cs)"
    if "v \<in> set (stack (hist (nav_run policy cs (create cm initial :: ('comp, 'c) navigation))))" for v
    using nav_run_found [OF that] by auto
  with dom_vals show ?thesis
    by (simp add: current_view_def nav_current_def set_nav_fields push_fields store_set_fields
        create_fields)
qed

theorem props_stored_verbatim_witness:
  "props (current_view (set_nav ''B'' (Some [''x'' \<mapsto> Str ''y'', ''n'' \<mapsto> Zero])
      (create [''A'' \<mapsto> (1::nat), ''B'' \<mapsto> 2] ''A'' :: (nat, string) navigation))) =
     Some [''x'' \<mapsto> Str ''y'', ''n'' \<mapsto> Zero] \<and>
   list_all (\<lambda>v. props v \<in> set (None # set_props [Set ''B'' (Some [''x'' \<mapsto> Str ''y'', ''n'' \<mapsto> Zero]) :: string nav_call]))
     (stack (hist (nav_run NoOp [Set ''B'' (Some [''x'' \<mapsto> Str ''y'', ''n'' \<mapsto> Zero])]
        (create [''A'' \<mapsto> (1::nat), ''B'' \<mapsto> 2] ''A'' :: (nat, string) navigation)))) \<and>
   ran [''x'' \<mapsto> Str ''y'', ''n'' \<mapsto> Zero] \<subseteq> insert Zero (range Str)"
proof -
  let ?bag = "[''x'' \<mapsto> Str ''y'', ''n'' \<mapsto> Zero]"
  let ?nav = "nav_run NoOp [Set ''B'' (Some ?bag)]
        (create [''A'' \<mapsto> (1::nat), ''B'' \<mapsto> 2] ''A'' :: (nat, string) navigation)"
  note inst = props_stored_verbatim [of "''B''" "Some ?bag"
      "create [''A'' \<mapsto> (1::nat), ''B'' \<mapsto> 2] ''A'' :: (nat, string) navigation"
      "[''A'' \<mapsto> (1::nat), ''B'' \<mapsto> 2]" "''A''" NoOp "[Set ''B'' (Some ?bag)]"]
  have on_stack: "\<lparr>component = Some 2, key = ''B'', props = Some ?bag\<rparr> \<in> set (stack (hist ?nav))"
    by (simp add: run_defs)
  from inst have a: "props (current_view (set_nav ''B'' (Some ?bag)
      (create [''A'' \<mapsto> (1::nat), ''B'' \<mapsto> 2] ''A'' :: (nat, string) navigation))) = Some ?bag"
    by blast
  from inst have all: "\<forall>v \<in> set (stack (hist ?nav)).
      props v \<in> set (None # set_props [Set ''B'' (Some ?bag) :: string nav_call]) \<and>
      (\<forall>bag. props v = Some bag \<longrightarrow> ran bag \<subseteq> insert Zero (range Str))"
    by blast
  then have "\<forall>v \<in> set (stack (hist ?nav)).
      props v \<in> set (None # set_props [Set ''B'' (Some ?bag) :: string nav_call])"
    by blast
  then have b: "list_all (\<lambda>v. props v \<in> set (None # set_props [Set ''B'' (Some ?bag) :: string nav_call]))
      (stack (hist ?nav))"
    unfolding list_all_iff .
  from all on_stack have
    "\<forall>bag. props \<lparr>component = Some (2::nat), key = ''B'', props = Some ?bag\<rparr> = Some bag \<longrightarrow>
       ran bag \<subseteq> insert Zero (range Str)"
    by blast
  then have c: "ran ?bag \<subseteq> insert Zero (range Str)"
    by simp
  from a b c show ?thesis by blast
qed

text \<open>
  C10. For every key \<open>k\<close> and optional bag \<open>p\<close>, \<^verbatim>\<open>set(k, p)\<close> appends one new view to
  the sequence, so the history grows by exactly one entry. This also holds when \<open>k\<close>
  and \<open>p\<close> are the key and props of the current view: on a navigation reached from
  \<^verbatim>\<open>create\<close> the sequence then ends in two equal views. Nothing is deduplicated.
\<close>

theorem set_always_pushes:
  "hist (set_nav k p nav) =
     push \<lparr>component = componentMap nav k, key = k, props = p\<rparr> (hist nav) \<and>
   stack (hist (set_nav k p nav)) =
     stack (hist nav) @ [\<lparr>component = componentMap nav k, key = k, props = p\<rparr>] \<and>
   length (stack (hist (set_nav k p nav))) = Suc (length (stack (hist nav))) \<and>
   (let reached = nav_run policy cs (create cm initial); cur = current_view reached
    in stack (hist (set_nav (key cur) (props cur) reached)) = stack (hist reached) @ [cur] \<and>
       top (stack (hist reached)) = Some cur)"
proof -
  let ?nav = "nav_run policy cs (create cm initial)"
  have "\<lparr>component = componentMap ?nav (key (current_view ?nav)), key = key (current_view ?nav),
         props = props (current_view ?nav)\<rparr> = current_view ?nav"
    using nav_reachable_component [of policy cs cm initial]
    by (simp add: nav_run_componentMap create_fields)
  moreover have "top (stack (hist ?nav)) = Some (current_view ?nav)"
    using nav_reachable_shape [of policy cs cm initial]
    by (cases "stack (hist ?nav)" rule: rev_cases) (simp_all add: top_def)
  ultimately show ?thesis
    by (simp add: set_nav_fields push_fields Let_def)
qed

end
